theory Spec2Isabelle
  imports Main
begin

section \<open>webmux: an HTTP request multiplexer\<close>

text \<open>
  A shallow embedding of the Go package \<^verbatim>\<open>webmux\<close> (files \<^verbatim>\<open>path.go\<close>,
  \<^verbatim>\<open>mux.go\<close>, the method set and the error handler). Go strings are byte
  strings and are modelled as \<^typ>\<open>string\<close>; a run-time panic is a value of type
  \<open>error\<close>, returned as \<open>Inl\<close>.
\<close>

datatype error =
    PanicEmptyMethodSet
  | PanicInvalidPattern
  | PanicNilHandler
  | PanicMultipleRegistrations string string
  | PanicSliceBounds
  | PanicIndexOutOfRange
  | PanicNilDereference

subsection \<open>path.go\<close>

text \<open>
  \<^verbatim>\<open>strings.IndexByte(s, c)\<close>: the index of the first \<open>c\<close> in \<open>s\<close>, or \<open>-1\<close>.
\<close>

fun IndexByte :: "string \<Rightarrow> char \<Rightarrow> int" where
  "IndexByte [] c = - 1"
| "IndexByte (x # xs) c =
     (if x = c then 0
      else (let r = IndexByte xs c in if r < 0 then - 1 else r + 1))"

text \<open>
  \<^verbatim>\<open>
  func shiftPath(p string) (head string, tail string) {
      i := strings.IndexByte(p[1:], '/') + 1
      if i <= 0 { return p[1:], "" }
      return p[1:i], p[i:]
  }
  \<close>
  The slice \<^verbatim>\<open>p[1:]\<close> panics on the empty string.
\<close>

definition shiftPath :: "string \<Rightarrow> error + (string \<times> string)" where
  "shiftPath p =
     (if p = [] then Inl PanicSliceBounds
      else (let i = IndexByte (drop 1 p) (CHR ''/'') + 1
            in if i \<le> 0 then Inr (drop 1 p, [])
               else Inr (drop 1 (take (nat i) p), drop (nat i) p)))"

text \<open>
  \<^verbatim>\<open>
  func cleanPath(p string) string {
      if p == "" { return "/" }
      if p[0] != '/' { p = "/" + p }
      return p
  }
  \<close>
\<close>

definition cleanPath :: "string \<Rightarrow> string" where
  "cleanPath p =
     (case p of
        [] \<Rightarrow> ''/''
      | c # _ \<Rightarrow> if c \<noteq> CHR ''/'' then ''/'' @ p else p)"

text \<open>
  Both registration and lookup consume a path with the same loop,
  \<^verbatim>\<open>for path != "" { head, tail := shiftPath(path); ...; path = tail }\<close>.
  \<open>segments\<close> is the sequence of heads that loop sees.
\<close>

function segments :: "string \<Rightarrow> error + string list" where
  "segments path =
     (if path = [] then Inr []
      else (case shiftPath path of
              Inl e \<Rightarrow> Inl e
            | Inr (head, tail) \<Rightarrow>
                (case segments tail of
                   Inl e \<Rightarrow> Inl e
                 | Inr hs \<Rightarrow> Inr (head # hs))))"
  by pat_completeness auto

lemma IndexByte_absent: "c \<notin> set s \<Longrightarrow> IndexByte s c = - 1"
  by (induction s) auto

lemma IndexByte_nonneg: "c \<in> set s \<Longrightarrow> 0 \<le> IndexByte s c"
  by (induction s) (auto simp: Let_def)

lemma IndexByte_present:
  "c \<in> set s \<Longrightarrow> IndexByte s c = int (length (takeWhile (\<lambda>x. x \<noteq> c) s))"
proof (induction s)
  case Nil
  then show ?case by simp
next
  case (Cons x s)
  show ?case
  proof (cases "x = c")
    case True
    then show ?thesis by simp
  next
    case False
    with Cons.prems have in_s: "c \<in> set s" by simp
    from IndexByte_nonneg [OF in_s] Cons.IH [OF in_s] False
    show ?thesis by (simp add: Let_def)
  qed
qed

lemma shiftPath_no_slash:
  "CHR ''/'' \<notin> set s \<Longrightarrow> shiftPath (c # s) = Inr (s, [])"
  by (simp add: shiftPath_def IndexByte_absent)

lemma shiftPath_slash:
  assumes "CHR ''/'' \<in> set s"
  shows "shiftPath (c # s) =
     Inr (takeWhile (\<lambda>x. x \<noteq> CHR ''/'') s, dropWhile (\<lambda>x. x \<noteq> CHR ''/'') s)"
proof -
  let ?n = "length (takeWhile (\<lambda>x. x \<noteq> CHR ''/'') s)"
  have tk: "take ?n s = takeWhile (\<lambda>x. x \<noteq> CHR ''/'') s"
    by (rule takeWhile_eq_take [symmetric])
  have dr: "drop ?n s = dropWhile (\<lambda>x. x \<noteq> CHR ''/'') s"
    by (rule dropWhile_eq_drop [symmetric])
  have "nat (int ?n + 1) = Suc ?n" by simp
  with assms tk dr show ?thesis
    by (simp add: shiftPath_def IndexByte_present Let_def)
qed

lemma shiftPath_Cons:
  "shiftPath (c # s) =
     Inr (takeWhile (\<lambda>x. x \<noteq> CHR ''/'') s, dropWhile (\<lambda>x. x \<noteq> CHR ''/'') s)"
proof (cases "CHR ''/'' \<in> set s")
  case True
  then show ?thesis by (rule shiftPath_slash)
next
  case False
  then have all: "\<forall>x\<in>set s. x \<noteq> CHR ''/''" by auto
  have "takeWhile (\<lambda>x. x \<noteq> CHR ''/'') s = s"
    using all by (rule takeWhile_eq_all_conv [THEN iffD2])
  moreover have "dropWhile (\<lambda>x. x \<noteq> CHR ''/'') s = []"
    using all by (rule dropWhile_eq_Nil_conv [THEN iffD2])
  ultimately show ?thesis
    using shiftPath_no_slash [OF False, of c] by metis
qed

lemma shiftPath_shorter: "shiftPath p = Inr (h, t) \<Longrightarrow> length t < length p"
proof (cases p)
  case Nil
  assume "shiftPath p = Inr (h, t)"
  with Nil show ?thesis by (simp add: shiftPath_def)
next
  case (Cons c s)
  assume "shiftPath p = Inr (h, t)"
  with Cons have "t = dropWhile (\<lambda>x. x \<noteq> CHR ''/'') s"
    by (simp add: shiftPath_Cons)
  with Cons show ?thesis
    by (simp add: length_dropWhile_le le_imp_less_Suc)
qed

termination segments
  by (relation "measure length") (auto dest: shiftPath_shorter)


subsection \<open>The method set\<close>

text \<open>
  \<^verbatim>\<open>type MethodSet []string\<close>: a slice of method tokens in insertion order.
  \<open>Methods\<close> and \<open>Add\<close> skip a token that is already there; \<open>String\<close> is
  \<^verbatim>\<open>strings.Join(m, ", ")\<close>.
\<close>

type_synonym MethodSet = "string list"

abbreviation MethodGet :: string where "MethodGet \<equiv> ''GET''"
abbreviation MethodHead :: string where "MethodHead \<equiv> ''HEAD''"
abbreviation MethodPost :: string where "MethodPost \<equiv> ''POST''"
abbreviation MethodOptions :: string where "MethodOptions \<equiv> ''OPTIONS''"

definition Methods :: "string list \<Rightarrow> MethodSet" where
  "Methods ms = foldl (\<lambda>s m. if m \<notin> set s then s @ [m] else s) [] ms"

definition MethodSet_Add :: "MethodSet \<Rightarrow> string \<Rightarrow> MethodSet" where
  "MethodSet_Add m method = (if method \<notin> set m then m @ [method] else m)"

definition MethodSet_Has :: "MethodSet \<Rightarrow> string \<Rightarrow> bool" where
  "MethodSet_Has m method = (method \<in> set m)"

fun Join :: "string list \<Rightarrow> string \<Rightarrow> string" where
  "Join [] sep = []"
| "Join [x] sep = x"
| "Join (x # y # ys) sep = x @ sep @ Join (y # ys) sep"

definition MethodSet_String :: "MethodSet \<Rightarrow> string" where
  "MethodSet_String m = Join m '', ''"

subsection \<open>mux.go: the routing tree\<close>

text \<open>
  \<^verbatim>\<open>
  type muxEntry struct {
      pattern  string             // raw URL pattern
      params   []string           // param names in the order they appear in pattern
      handlers map[string]Handler // http Method to handler
      methods  MethodSet          // cache of allowed HTTP methods
  }
  type node struct {
      children map[string]*node // path segment to child node
      entry    *muxEntry
  }
  \<close>
  Handlers are values of an abstract type \<open>'h\<close>; a \<^verbatim>\<open>nil\<close> handler, entry or map
  is \<open>None\<close> or the empty map. Every node is allocated by the registration that
  first walks to it and is the child of exactly one parent, and every entry hangs
  on exactly one node, so the pointer structure is a tree and in-place mutation of
  a node is an update of the subtree below its parent.
\<close>

record 'h muxEntry =
  pattern :: string
  params :: "string list"
  handlers :: "string \<rightharpoonup> 'h"
  methods :: MethodSet

datatype 'h node = Node (children: "string \<rightharpoonup> 'h node") (entry: "'h muxEntry option")

text \<open>
  \<^verbatim>\<open>type MuxMatch struct { *muxEntry; values []string }\<close> The field \<open>mvalues\<close>
  is the source's \<^verbatim>\<open>values\<close>.
\<close>

record 'h MuxMatch =
  muxEntry :: "'h muxEntry option"
  mvalues :: "string list"

text \<open>
  The request: its method, \<^verbatim>\<open>r.URL.Path\<close>, and the \<^verbatim>\<open>MuxMatch\<close> its context
  carries under \<^verbatim>\<open>muxKey\<close>, if any.
\<close>

record 'h Request =
  Method :: string
  URL_Path :: string
  Ctx :: "'h MuxMatch option"

text \<open>
  The Go \<^verbatim>\<open>error\<close> values that dispatch returns, and what is written to the
  \<^verbatim>\<open>http.ResponseWriter\<close>, in order.
\<close>

datatype err = ErrMuxNotFound | HandlerErr string

datatype effect =
    HeaderAdd string string
  | WriteHeader nat
  | HttpError nat

datatype 'h served =
    ReturnNil
  | ReturnErr err
  | ServeHandler 'h "'h Request"

record 'h ServeMux =
  errHandler :: "'h Request \<Rightarrow> err \<Rightarrow> effect list"
  root :: "'h node"

definition node_addChild :: "'h node \<Rightarrow> string \<Rightarrow> 'h node \<Rightarrow> 'h node" where
  "node_addChild n path child = Node ((children n)(path \<mapsto> child)) (entry n)"

text \<open>
  \<^verbatim>\<open>
  func (e *muxEntry) setHandler(method string, handler Handler) {
      if e.handlers == nil { e.handlers = make(map[string]Handler) }
      _, ok := e.handlers[method]
      if ok { panic(fmt.Sprintf("web: multiple registrations for %s %s", method, e.pattern)) }
      e.handlers[method] = handler
      e.methods = e.methods.Add(method)
      if method == http.MethodGet && !e.methods.Has(http.MethodHead) {
          e.methods = e.methods.Add(http.MethodHead)
      }
  }
  \<close>
\<close>

definition muxEntry_setHandler :: "'h muxEntry \<Rightarrow> string \<Rightarrow> 'h \<Rightarrow> error + 'h muxEntry" where
  "muxEntry_setHandler e method handler =
     (case handlers e method of
        Some _ \<Rightarrow> Inl (PanicMultipleRegistrations method (pattern e))
      | None \<Rightarrow>
          (let e1 = e\<lparr>handlers := (handlers e)(method \<mapsto> handler)\<rparr>;
               e2 = e1\<lparr>methods := MethodSet_Add (methods e1) method\<rparr>
           in if method = MethodGet \<and> \<not> MethodSet_Has (methods e2) MethodHead
              then Inr (e2\<lparr>methods := MethodSet_Add (methods e2) MethodHead\<rparr>)
              else Inr e2))"

text \<open>\<^verbatim>\<open>for _, method := range methods { entry.setHandler(method, handler) }\<close>\<close>

fun setHandlers :: "'h muxEntry \<Rightarrow> MethodSet \<Rightarrow> 'h \<Rightarrow> error + 'h muxEntry" where
  "setHandlers e [] handler = Inr e"
| "setHandlers e (method # ms) handler =
     (case muxEntry_setHandler e method handler of
        Inl x \<Rightarrow> Inl x
      | Inr e' \<Rightarrow> setHandlers e' ms handler)"

text \<open>
  The end of \<^verbatim>\<open>HandleMethods\<close>, at the node the walk stopped on:
  \<^verbatim>\<open>
  entry := current.entry
  if entry == nil {
      entry = &muxEntry{pattern: pattern, params: params, methods: Methods(http.MethodOptions)}
      current.entry = entry
  }
  for _, method := range methods { entry.setHandler(method, handler) }
  \<close>
\<close>

definition HandleMethods_entry ::
  "MethodSet \<Rightarrow> string \<Rightarrow> 'h \<Rightarrow> string list \<Rightarrow> 'h node \<Rightarrow> error + 'h node" where
  "HandleMethods_entry ms pat handler ps current =
     (let e = (case entry current of
                 None \<Rightarrow> \<lparr>pattern = pat, params = ps, handlers = Map.empty,
                           methods = Methods [MethodOptions]\<rparr>
               | Some e0 \<Rightarrow> e0)
      in case setHandlers e ms handler of
           Inl x \<Rightarrow> Inl x
         | Inr e' \<Rightarrow> Inr (Node (children current) (Some e')))"

text \<open>
  The walk of \<^verbatim>\<open>HandleMethods\<close>:
  \<^verbatim>\<open>
  for path != "" {
      head, tail := shiftPath(path)
      if head != "" && (head[0] == ':' || head[0] == '*') {
          params = append(params, head[1:])
          head = "*"
      }
      next, ok := current.children[head]
      if !ok { next = &node{} }
      current.addChild(head, next)
      current = next
      path = tail
  }
  \<close>
  The function returns the node \<open>current\<close> as it is once the whole registration
  has run below it.
\<close>

function HandleMethods_loop ::
  "MethodSet \<Rightarrow> string \<Rightarrow> 'h \<Rightarrow> string \<Rightarrow> string list \<Rightarrow> 'h node \<Rightarrow> error + 'h node" where
  "HandleMethods_loop ms pat handler path ps current =
     (if path = [] then HandleMethods_entry ms pat handler ps current
      else (case shiftPath path of
              Inl x \<Rightarrow> Inl x
            | Inr (head, tail) \<Rightarrow>
                (let ph = (head \<noteq> [] \<and> (hd head = CHR '':'' \<or> hd head = CHR ''*''));
                     ps' = (if ph then ps @ [drop 1 head] else ps);
                     head' = (if ph then ''*'' else head);
                     next = (case children current head' of
                               Some n \<Rightarrow> n
                             | None \<Rightarrow> Node Map.empty None)
                 in case HandleMethods_loop ms pat handler tail ps' next of
                      Inl x \<Rightarrow> Inl x
                    | Inr next' \<Rightarrow> Inr (node_addChild current head' next'))))"
  by pat_completeness auto
termination
  by (relation "measure (\<lambda>(ms, pat, handler, path, ps, current). length path)")
     (auto dest: shiftPath_shorter)

text \<open>
  \<^verbatim>\<open>
  func (mux *ServeMux) HandleMethods(methods MethodSet, pattern string, handler Handler) {
      if len(methods) == 0 { panic("webmux: empty method set") }
      if pattern == "" { panic("webmux: invalid pattern") }
      if handler == nil { panic("webmux: nil handler") }
      path := cleanPath(pattern)
      params := make([]string, 0)
      current := mux.root
      ...
  \<close>
\<close>

definition HandleMethods ::
  "'h ServeMux \<Rightarrow> MethodSet \<Rightarrow> string \<Rightarrow> 'h option \<Rightarrow> error + 'h ServeMux" where
  "HandleMethods mux ms pat handler =
     (if length ms = 0 then Inl PanicEmptyMethodSet
      else if pat = [] then Inl PanicInvalidPattern
      else (case handler of
              None \<Rightarrow> Inl PanicNilHandler
            | Some h \<Rightarrow>
                (case HandleMethods_loop ms pat h (cleanPath pat) [] (root mux) of
                   Inl x \<Rightarrow> Inl x
                 | Inr r \<Rightarrow> Inr (mux\<lparr>root := r\<rparr>))))"

text \<open>\<^verbatim>\<open>Handle(method, pattern, handler)\<close> is \<^verbatim>\<open>HandleMethods(Methods(method), ...)\<close>.\<close>

definition Handle :: "'h ServeMux \<Rightarrow> string \<Rightarrow> string \<Rightarrow> 'h option \<Rightarrow> error + 'h ServeMux" where
  "Handle mux method pat handler = HandleMethods mux (Methods [method]) pat handler"


subsection \<open>mux.go: lookup\<close>

text \<open>
  \<^verbatim>\<open>
  func (mux *ServeMux) lookup(r *http.Request, match *MuxMatch) *MuxMatch {
      path := cleanPath(r.URL.Path)
      current := mux.root
      var entry *muxEntry
      for path != "" {
          head, tail := shiftPath(path)
          next, ok := current.children[head]
          if !ok {
              next, ok = current.children["*"]
              if ok { match.values = append(match.values, head) }
          }
          if !ok { return nil }
          current = next
          path = tail
          if current.entry != nil { entry = current.entry }
      }
      if entry == nil { return nil }
      match.muxEntry = entry
      return match
  }
  \<close>
  The loop state is \<open>path\<close>, \<open>current\<close>, \<open>entry\<close> (here \<open>ent\<close>) and
  \<^verbatim>\<open>match.values\<close> (here \<open>vs\<close>); \<^verbatim>\<open>nil\<close> is \<open>None\<close>.
\<close>

function lookup_loop ::
  "string \<Rightarrow> 'h node \<Rightarrow> 'h muxEntry option \<Rightarrow> string list \<Rightarrow> error + 'h MuxMatch option" where
  "lookup_loop path current ent vs =
     (if path = [] then
        (case ent of
           None \<Rightarrow> Inr None
         | Some e \<Rightarrow> Inr (Some \<lparr>muxEntry = Some e, mvalues = vs\<rparr>))
      else (case shiftPath path of
              Inl x \<Rightarrow> Inl x
            | Inr (head, tail) \<Rightarrow>
                (case children current head of
                   Some next \<Rightarrow>
                     lookup_loop tail next
                       (case entry next of Some e \<Rightarrow> Some e | None \<Rightarrow> ent) vs
                 | None \<Rightarrow>
                     (case children current ''*'' of
                        Some next \<Rightarrow>
                          lookup_loop tail next
                            (case entry next of Some e \<Rightarrow> Some e | None \<Rightarrow> ent) (vs @ [head])
                      | None \<Rightarrow> Inr None))))"
  by pat_completeness auto
termination
  by (relation "measure (\<lambda>(path, current, ent, vs). length path)")
     (auto dest: shiftPath_shorter)

definition lookup :: "'h ServeMux \<Rightarrow> 'h Request \<Rightarrow> 'h MuxMatch \<Rightarrow> error + 'h MuxMatch option" where
  "lookup mux r match = lookup_loop (cleanPath (URL_Path r)) (root mux) None (mvalues match)"

text \<open>\<^verbatim>\<open>Lookup\<close> starts from a fresh \<^verbatim>\<open>&MuxMatch{}\<close>.\<close>

definition Lookup :: "'h ServeMux \<Rightarrow> 'h Request \<Rightarrow> error + 'h MuxMatch option" where
  "Lookup mux r = lookup mux r \<lparr>muxEntry = None, mvalues = []\<rparr>"

subsection \<open>mux.go: the match\<close>

text \<open>
  \<^verbatim>\<open>Reset\<close> clears the entry and truncates the values. The accessors are called on
  a match whose \<^verbatim>\<open>muxEntry\<close> may be \<^verbatim>\<open>nil\<close>.
\<close>

definition MuxMatch_Reset :: "'h MuxMatch \<Rightarrow> 'h MuxMatch" where
  "MuxMatch_Reset m = m\<lparr>muxEntry := None, mvalues := []\<rparr>"

definition MuxMatch_Pattern :: "'h MuxMatch \<Rightarrow> string" where
  "MuxMatch_Pattern m = (case muxEntry m of None \<Rightarrow> [] | Some e \<Rightarrow> pattern e)"

definition MuxMatch_Params :: "'h MuxMatch \<Rightarrow> string list" where
  "MuxMatch_Params m = (case muxEntry m of None \<Rightarrow> [] | Some e \<Rightarrow> params e)"

definition MuxMatch_Methods :: "'h MuxMatch \<Rightarrow> MethodSet" where
  "MuxMatch_Methods m = (case muxEntry m of None \<Rightarrow> [] | Some e \<Rightarrow> methods e)"

definition MuxMatch_Handler :: "'h MuxMatch \<Rightarrow> string \<Rightarrow> 'h option" where
  "MuxMatch_Handler m method = (case muxEntry m of None \<Rightarrow> None | Some e \<Rightarrow> handlers e method)"

text \<open>
  \<^verbatim>\<open>
  func (m *MuxMatch) Param(name string) string {
      if m.muxEntry == nil { return "" }
      for i, k := range m.params {
          if k == name { return m.values[i] }
      }
      return ""
  }
  \<close>
  \<open>Param_scan\<close> is the loop, \<open>i\<close> the index of the head of the names still to
  scan; \<^verbatim>\<open>m.values[i]\<close> panics when \<open>i\<close> is out of range.
\<close>

fun Param_scan :: "string list \<Rightarrow> nat \<Rightarrow> string list \<Rightarrow> string \<Rightarrow> error + string" where
  "Param_scan [] i vs name = Inr []"
| "Param_scan (k # ks) i vs name =
     (if k = name then (if i < length vs then Inr (vs ! i) else Inl PanicIndexOutOfRange)
      else Param_scan ks (Suc i) vs name)"

definition MuxMatch_Param :: "'h MuxMatch \<Rightarrow> string \<Rightarrow> error + string" where
  "MuxMatch_Param m name =
     (case muxEntry m of
        None \<Rightarrow> Inr []
      | Some e \<Rightarrow> Param_scan (params e) 0 (mvalues m) name)"

subsection \<open>mux.go: dispatch\<close>

abbreviation StatusNoContent :: nat where "StatusNoContent \<equiv> 204"
abbreviation StatusNotFound :: nat where "StatusNotFound \<equiv> 404"
abbreviation StatusMethodNotAllowed :: nat where "StatusMethodNotAllowed \<equiv> 405"
abbreviation StatusInternalServerError :: nat where "StatusInternalServerError \<equiv> 500"

text \<open>
  \<^verbatim>\<open>
  func (mux *ServeMux) ServeHTTPErr(w http.ResponseWriter, r *http.Request) error {
      match := mux.pool.Get().(*MuxMatch)
      match.Reset()
      defer func() {
          mux.pool.Put(match)
      }()
      match = mux.lookup(r, match)
      if match == nil { return ErrMuxNotFound }
      h := match.Handler(r.Method)
      if h == nil && r.Method == http.MethodHead { h = match.Handler(http.MethodGet) }
      if h == nil && r.Method == http.MethodOptions {
          w.Header().Add("Allow", match.Methods().String())
          w.WriteHeader(http.StatusNoContent)
          return nil
      }
      if h == nil { return ErrMuxNotFound }
      r = r.WithContext(NewContext(r.Context(), match))
      return h.ServeHTTPErr(w, r)
  }
  \<close>
  \<open>pooled\<close> is the pointer \<^verbatim>\<open>mux.pool.Get()\<close> returns: a new \<^verbatim>\<open>MuxMatch\<close>
  (\<open>pool_New\<close>, the pool's \<^verbatim>\<open>New\<close>), or a pointer an earlier call has put back,
  which may be \<^verbatim>\<open>nil\<close> (\<open>None\<close>); \<^verbatim>\<open>Reset\<close> dereferences it. The deferred
  function reads the variable \<^verbatim>\<open>match\<close> when the call returns, after \<^verbatim>\<open>lookup\<close>
  has reassigned it. The result is what the mux itself wrote, how the function
  returns (\<open>ServeHandler h r'\<close> is the call \<^verbatim>\<open>h.ServeHTTPErr(w, r')\<close> in return
  position), and the pointer that goes back to the pool: the match, or \<^verbatim>\<open>nil\<close>
  after a miss.
\<close>

definition pool_New :: "'h MuxMatch option" where
  "pool_New = Some \<lparr>muxEntry = None, mvalues = []\<rparr>"

definition ServeHTTPErr ::
  "'h ServeMux \<Rightarrow> 'h MuxMatch option \<Rightarrow> 'h Request \<Rightarrow>
   error + (effect list \<times> 'h served \<times> 'h MuxMatch option)" where
  "ServeHTTPErr mux pooled r =
     (case pooled of
        None \<Rightarrow> Inl PanicNilDereference
      | Some p \<Rightarrow>
          (case lookup mux r (MuxMatch_Reset p) of
             Inl x \<Rightarrow> Inl x
           | Inr None \<Rightarrow> Inr ([], ReturnErr ErrMuxNotFound, None)
           | Inr (Some match) \<Rightarrow>
               (let h0 = MuxMatch_Handler match (Method r);
                    h = (if h0 = None \<and> Method r = MethodHead
                         then MuxMatch_Handler match MethodGet else h0)
                in if h = None \<and> Method r = MethodOptions
                   then Inr ([HeaderAdd ''Allow'' (MethodSet_String (MuxMatch_Methods match)),
                              WriteHeader StatusNoContent], ReturnNil, Some match)
                   else (case h of
                           None \<Rightarrow> Inr ([], ReturnErr ErrMuxNotFound, Some match)
                         | Some f \<Rightarrow>
                             Inr ([], ServeHandler f (r\<lparr>Ctx := Some match\<rparr>), Some match)))))"

text \<open>
  The default error handler:
  \<^verbatim>\<open>
  func (h StatusErrorHandler) ErrorHTTP(w http.ResponseWriter, r *http.Request, err error) {
      if errors.Is(err, ErrMuxNotFound) {
          match, ok := FromContext(r.Context())
          if !ok { writeError(w, http.StatusNotFound); return }
          w.Header().Add("Allow", match.Methods().String())
          writeError(w, http.StatusMethodNotAllowed)
          return
      }
      log.Printf("mux error: %s", err.Error())
      writeError(w, http.StatusInternalServerError)
  }
  \<close>
  The log line is left out.
\<close>

definition StatusErrorHandler_ErrorHTTP :: "'h Request \<Rightarrow> err \<Rightarrow> effect list" where
  "StatusErrorHandler_ErrorHTTP r e =
     (if e = ErrMuxNotFound then
        (case Ctx r of
           None \<Rightarrow> [HttpError StatusNotFound]
         | Some match \<Rightarrow>
             [HeaderAdd ''Allow'' (MethodSet_String (MuxMatch_Methods match)),
              HttpError StatusMethodNotAllowed])
      else [HttpError StatusInternalServerError])"

text \<open>
  \<^verbatim>\<open>
  func (mux *ServeMux) ServeHTTP(w http.ResponseWriter, r *http.Request) {
      err := mux.ServeHTTPErr(w, r)
      if err != nil { mux.errHandler.ErrorHTTP(w, r, err) }
  }
  \<close>
  \<open>run h r'\<close> is what the handler \<open>h\<close> writes and returns on the request \<open>r'\<close>.
  The error handler receives the request \<open>r\<close> that \<open>ServeHTTP\<close> was called with. The
  result is everything written, and the pointer that goes back to the pool.
\<close>

definition ServeHTTP ::
  "('h \<Rightarrow> 'h Request \<Rightarrow> effect list \<times> err option) \<Rightarrow>
   'h ServeMux \<Rightarrow> 'h MuxMatch option \<Rightarrow> 'h Request \<Rightarrow>
   error + (effect list \<times> 'h MuxMatch option)" where
  "ServeHTTP run mux pooled r =
     (case ServeHTTPErr mux pooled r of
        Inl x \<Rightarrow> Inl x
      | Inr (ws, ReturnNil, put) \<Rightarrow> Inr (ws, put)
      | Inr (ws, ReturnErr e, put) \<Rightarrow> Inr (ws @ errHandler mux r e, put)
      | Inr (ws, ServeHandler h r', put) \<Rightarrow>
          (case run h r' of
             (hs, None) \<Rightarrow> Inr (ws @ hs, put)
           | (hs, Some e) \<Rightarrow> Inr (ws @ hs @ errHandler mux r e, put)))"

text \<open>\<^verbatim>\<open>NewMux\<close>: the default error handler and an empty root node.\<close>

definition NewMux :: "'h ServeMux" where
  "NewMux = \<lparr>errHandler = StatusErrorHandler_ErrorHTTP, root = Node Map.empty None\<rparr>"

text \<open>
  A sequence of \<^verbatim>\<open>Handle\<close> calls on one mux, in order, as a program's set-up code
  makes them; a panic ends the sequence.
\<close>

fun Handle_all :: "'h ServeMux \<Rightarrow> (string \<times> string \<times> 'h) list \<Rightarrow> error + 'h ServeMux" where
  "Handle_all mux [] = Inr mux"
| "Handle_all mux ((method, pat, h) # rest) =
     (case Handle mux method pat (Some h) of
        Inl x \<Rightarrow> Inl x
      | Inr mux' \<Rightarrow> Handle_all mux' rest)"

subsection \<open>The tree, by key sequences\<close>

text \<open>
  The test \<^verbatim>\<open>head != "" && (head[0] == ':' || head[0] == '*')\<close> of the registration
  walk, the key it files a pattern segment under, and the parameter names it
  collects from a pattern's segments.
\<close>

definition placeholder :: "string \<Rightarrow> bool" where
  "placeholder head = (head \<noteq> [] \<and> (hd head = CHR '':'' \<or> hd head = CHR ''*''))"

definition segment_key :: "string \<Rightarrow> string" where
  "segment_key head = (if placeholder head then ''*'' else head)"

definition segment_names :: "string list \<Rightarrow> string list" where
  "segment_names segs = map (drop 1) (filter placeholder segs)"

text \<open>
  The keys of the edges that \<^verbatim>\<open>HandleMethods\<close> walks for a pattern, root first.
\<close>

definition pattern_keys :: "string \<Rightarrow> string list" where
  "pattern_keys pat =
     (case segments (cleanPath pat) of Inl _ \<Rightarrow> [] | Inr segs \<Rightarrow> map segment_key segs)"

text \<open>
  The node reached from \<open>n\<close> along a sequence of child keys, and the entry on it.
\<close>

fun descend :: "'h node \<Rightarrow> string list \<Rightarrow> 'h node option" where
  "descend n [] = Some n"
| "descend n (k # ks) = (case children n k of None \<Rightarrow> None | Some c \<Rightarrow> descend c ks)"

definition entry_at :: "'h node \<Rightarrow> string list \<Rightarrow> 'h muxEntry option" where
  "entry_at n ks = (case descend n ks of None \<Rightarrow> None | Some c \<Rightarrow> entry c)"

text \<open>
  The parameter names \<^verbatim>\<open>HandleMethods\<close> has collected for a pattern when its walk
  ends.
\<close>

definition pattern_names :: "string \<Rightarrow> string list" where
  "pattern_names pat =
     (case segments (cleanPath pat) of Inl _ \<Rightarrow> [] | Inr segs \<Rightarrow> segment_names segs)"

text \<open>
  No child key of a tree built by registrations has the shape of a placeholder,
  except the wildcard key itself: the invariant that lets a lookup find the
  wildcard edge of a pattern by fallback.
\<close>

definition keys_ok :: "'h node \<Rightarrow> bool" where
  "keys_ok n = (\<forall>ks c k. descend n ks = Some c \<longrightarrow> placeholder k \<longrightarrow> k \<noteq> ''*'' \<longrightarrow> children c k = None)"

text \<open>
  The muxes a program can build: a new mux, and any mux after a registration that
  did not panic.
\<close>

inductive registered :: "'h ServeMux \<Rightarrow> bool" where
  new: "registered NewMux"
| handle: "registered mux \<Longrightarrow> HandleMethods mux ms pat handler = Inr mux' \<Longrightarrow> registered mux'"

subsection \<open>The lookup in the words of the specification\<close>

text \<open>
  These four definitions follow the specification's description of the lookup, not
  the source; they are compared with \<open>lookup\<close> below. A node maps literal segment
  texts and the wildcard sentinel to children; the tree keeps the wildcard child
  under the key \<open>*\<close>, so a child keyed by literal text is a child under any
  other key. One step prefers the literal child keyed by the segment text and, if
  there is none, falls back to the wildcard child, capturing the segment. The walk
  returns the nodes it entered, in order, and the captured values; the result is the entry of the deepest node entered that carries
  one, with the captured values.
\<close>

definition spec_step :: "'h node \<Rightarrow> string \<Rightarrow> ('h node \<times> string list) option" where
  "spec_step n seg =
     (case (if seg = ''*'' then None else children n seg) of
        Some c \<Rightarrow> Some (c, [])
      | None \<Rightarrow> (case children n ''*'' of Some c \<Rightarrow> Some (c, [seg]) | None \<Rightarrow> None))"

fun spec_walk :: "'h node \<Rightarrow> string list \<Rightarrow> ('h node list \<times> string list) option" where
  "spec_walk n [] = Some ([], [])"
| "spec_walk n (seg # segs) =
     (case spec_step n seg of
        None \<Rightarrow> None
      | Some (c, cap) \<Rightarrow>
          (case spec_walk c segs of
             None \<Rightarrow> None
           | Some (ns, caps) \<Rightarrow> Some (c # ns, cap @ caps)))"

definition spec_deepest_entry :: "'h node list \<Rightarrow> 'h muxEntry option" where
  "spec_deepest_entry ns =
     (let es = List.map_filter entry ns in if es = [] then None else Some (last es))"

definition spec_lookup :: "'h node \<Rightarrow> string list \<Rightarrow> 'h MuxMatch option" where
  "spec_lookup rt segs =
     (case spec_walk rt segs of
        None \<Rightarrow> None
      | Some (ns, caps) \<Rightarrow>
          (case spec_deepest_entry ns of
             None \<Rightarrow> None
           | Some e \<Rightarrow> Some \<lparr>muxEntry = Some e, mvalues = caps\<rparr>))"

section \<open>Properties\<close>


subsection \<open>The loops, one segment at a time\<close>

declare segments.simps [simp del]
declare lookup_loop.simps [simp del]
declare HandleMethods_loop.simps [simp del]

lemma segments_Nil: "segments [] = Inr []"
  by (simp add: segments.simps)

lemma segments_Cons:
  "segments (c # s) =
     (case segments (dropWhile (\<lambda>x. x \<noteq> CHR ''/'') s) of
        Inl e \<Rightarrow> Inl e
      | Inr hs \<Rightarrow> Inr (takeWhile (\<lambda>x. x \<noteq> CHR ''/'') s # hs))"
  by (subst segments.simps) (simp add: shiftPath_Cons)

lemma segments_total: "\<exists>hs. segments p = Inr hs"
proof (induction p rule: length_induct)
  case (1 p)
  show ?case
  proof (cases p)
    case Nil
    then show ?thesis by (simp add: segments_Nil)
  next
    case (Cons c s)
    have "length (dropWhile (\<lambda>x. x \<noteq> CHR ''/'') s) < length p"
      using Cons by (simp add: length_dropWhile_le le_imp_less_Suc)
    with 1 obtain hs where "segments (dropWhile (\<lambda>x. x \<noteq> CHR ''/'') s) = Inr hs"
      by blast
    with Cons show ?thesis by (simp add: segments_Cons)
  qed
qed

lemma lookup_loop_Nil:
  "lookup_loop [] current ent vs =
     (case ent of None \<Rightarrow> Inr None | Some e \<Rightarrow> Inr (Some \<lparr>muxEntry = Some e, mvalues = vs\<rparr>))"
  by (simp add: lookup_loop.simps)

lemma lookup_loop_Cons:
  "lookup_loop (c # s) current ent vs =
     (let head = takeWhile (\<lambda>x. x \<noteq> CHR ''/'') s; tail = dropWhile (\<lambda>x. x \<noteq> CHR ''/'') s
      in case children current head of
           Some next \<Rightarrow>
             lookup_loop tail next (case entry next of Some e \<Rightarrow> Some e | None \<Rightarrow> ent) vs
         | None \<Rightarrow>
             (case children current ''*'' of
                Some next \<Rightarrow>
                  lookup_loop tail next
                    (case entry next of Some e \<Rightarrow> Some e | None \<Rightarrow> ent) (vs @ [head])
              | None \<Rightarrow> Inr None))"
  by (subst lookup_loop.simps) (simp add: shiftPath_Cons Let_def)

lemma HandleMethods_loop_Nil:
  "HandleMethods_loop ms pat handler [] ps current = HandleMethods_entry ms pat handler ps current"
  by (simp add: HandleMethods_loop.simps)

lemma HandleMethods_loop_Cons:
  "HandleMethods_loop ms pat handler (c # s) ps current =
     (let head = takeWhile (\<lambda>x. x \<noteq> CHR ''/'') s; tail = dropWhile (\<lambda>x. x \<noteq> CHR ''/'') s;
          ph = (head \<noteq> [] \<and> (hd head = CHR '':'' \<or> hd head = CHR ''*''));
          ps' = (if ph then ps @ [drop 1 head] else ps);
          head' = (if ph then ''*'' else head);
          next = (case children current head' of Some n \<Rightarrow> n | None \<Rightarrow> Node Map.empty None)
      in case HandleMethods_loop ms pat handler tail ps' next of
           Inl x \<Rightarrow> Inl x
         | Inr next' \<Rightarrow> Inr (node_addChild current head' next'))"
  by (subst HandleMethods_loop.simps) (simp add: shiftPath_Cons Let_def)

text \<open>The equations that run the model on a concrete mux and request.\<close>

lemmas eval_simps =
  lookup_loop_Nil lookup_loop_Cons HandleMethods_loop_Nil HandleMethods_loop_Cons
  HandleMethods_entry_def muxEntry_setHandler_def node_addChild_def
  Handle_def HandleMethods_def Methods_def MethodSet_Add_def MethodSet_Has_def
  MethodSet_String_def cleanPath_def NewMux_def Lookup_def lookup_def Let_def
  MuxMatch_Pattern_def MuxMatch_Params_def MuxMatch_Methods_def MuxMatch_Handler_def
  MuxMatch_Param_def MuxMatch_Reset_def ServeHTTPErr_def ServeHTTP_def pool_New_def
  StatusErrorHandler_ErrorHTTP_def

subsection \<open>Path normalization\<close>

lemma slashes_split:
  assumes h: "CHR ''/'' \<notin> set h" and t: "t = [] \<or> hd t = CHR ''/''"
  shows "takeWhile (\<lambda>x. x \<noteq> CHR ''/'') (h @ t) = h"
    and "dropWhile (\<lambda>x. x \<noteq> CHR ''/'') (h @ t) = t"
proof -
  from h have all: "\<And>x. x \<in> set h \<Longrightarrow> x \<noteq> CHR ''/''" by auto
  have tw: "takeWhile (\<lambda>x. x \<noteq> CHR ''/'') (h @ t) = h @ takeWhile (\<lambda>x. x \<noteq> CHR ''/'') t"
    using all by (rule takeWhile_append2)
  have dw: "dropWhile (\<lambda>x. x \<noteq> CHR ''/'') (h @ t) = dropWhile (\<lambda>x. x \<noteq> CHR ''/'') t"
    using all by (rule dropWhile_append2)
  from t have "takeWhile (\<lambda>x. x \<noteq> CHR ''/'') t = []" by (cases t) simp_all
  with tw show "takeWhile (\<lambda>x. x \<noteq> CHR ''/'') (h @ t) = h" by simp
  from t have "dropWhile (\<lambda>x. x \<noteq> CHR ''/'') t = t" by (cases t) simp_all
  with dw show "dropWhile (\<lambda>x. x \<noteq> CHR ''/'') (h @ t) = t" by simp
qed

lemma segments_concat:
  "\<forall>s\<in>set segs. CHR ''/'' \<notin> set s \<Longrightarrow>
     segments (concat (map ((#) (CHR ''/'')) segs)) = Inr segs"
proof (induction segs)
  case Nil
  then show ?case by (simp add: segments_Nil)
next
  case (Cons s ss)
  let ?rest = "concat (map ((#) (CHR ''/'')) ss)"
  have rest: "?rest = [] \<or> hd ?rest = CHR ''/''" by (cases ss) simp_all
  from Cons.prems have s: "CHR ''/'' \<notin> set s" by simp
  from Cons show ?case
    by (simp add: segments_Cons slashes_split [OF s rest])
qed

text \<open>
  C10. \<open>cleanPath\<close> does two things only: the empty path becomes \<open>/\<close>, and a path that
  does not start with a slash gets one in front. A path that starts with a slash is
  returned as it is. Nothing is collapsed or resolved afterwards either: when a path
  is written as a slash in front of each of its (slash-free) pieces, the segment walk
  sees exactly these pieces, in order, whatever they are: empty (a repeated or a
  trailing slash), \<open>.\<close> or \<open>..\<close>.
\<close>

theorem cleanPath_two_fixes_only:
  "cleanPath [] = ''/'' \<and>
   (p \<noteq> [] \<and> hd p \<noteq> CHR ''/'' \<longrightarrow> cleanPath p = CHR ''/'' # p) \<and>
   (p \<noteq> [] \<and> hd p = CHR ''/'' \<longrightarrow> cleanPath p = p) \<and>
   (segs \<noteq> [] \<and> (\<forall>s\<in>set segs. CHR ''/'' \<notin> set s) \<longrightarrow>
      segments (cleanPath (concat (map ((#) (CHR ''/'')) segs))) = Inr segs)"
proof (intro conjI impI)
  show "cleanPath [] = ''/''" by (simp add: cleanPath_def)
next
  assume "p \<noteq> [] \<and> hd p \<noteq> CHR ''/''"
  then show "cleanPath p = CHR ''/'' # p" by (cases p) (simp_all add: cleanPath_def)
next
  assume "p \<noteq> [] \<and> hd p = CHR ''/''"
  then show "cleanPath p = p" by (cases p) (simp_all add: cleanPath_def)
next
  assume a: "segs \<noteq> [] \<and> (\<forall>s\<in>set segs. CHR ''/'' \<notin> set s)"
  then have "cleanPath (concat (map ((#) (CHR ''/'')) segs)) = concat (map ((#) (CHR ''/'')) segs)"
    by (cases segs) (simp_all add: cleanPath_def)
  with a show "segments (cleanPath (concat (map ((#) (CHR ''/'')) segs))) = Inr segs"
    by (simp add: segments_concat)
qed

theorem cleanPath_two_fixes_only_witness:
  "cleanPath ''a/b'' = ''/a/b'' \<and> cleanPath ''/a//b/./../'' = ''/a//b/./../'' \<and>
   segments (cleanPath ''/a//b/./../'') = Inr [''a'', '''', ''b'', ''.'', ''..'', '''']"
  using cleanPath_two_fixes_only [of "''a/b''" "[''a'']"]
    cleanPath_two_fixes_only [of "''/a//b/./../''" "[''a'', '''', ''b'', ''.'', ''..'', '''']"]
  by (simp add: cleanPath_def)

subsection \<open>Registration\<close>

lemma setHandler_Inl: "(\<exists>x. muxEntry_setHandler e m h = Inl x) \<longleftrightarrow> handlers e m \<noteq> None"
  by (auto simp: muxEntry_setHandler_def Let_def split: option.splits)

lemma setHandler_Inr:
  "muxEntry_setHandler e m h = Inr e' \<Longrightarrow>
     handlers e m = None \<and> handlers e' = (handlers e)(m \<mapsto> h) \<and>
     pattern e' = pattern e \<and> params e' = params e"
  by (auto simp: muxEntry_setHandler_def Let_def split: option.splits if_splits)

lemma setHandlers_Inl:
  "(\<exists>x. setHandlers e ms h = Inl x) \<longleftrightarrow> (\<exists>m\<in>set ms. handlers e m \<noteq> None) \<or> \<not> distinct ms"
proof (induction ms arbitrary: e)
  case Nil
  then show ?case by simp
next
  case (Cons m ms)
  show ?case
  proof (cases "muxEntry_setHandler e m h")
    case (Inl x)
    then have "handlers e m \<noteq> None" using setHandler_Inl [of e m h] by blast
    with Inl show ?thesis by auto
  next
    case (Inr e')
    from setHandler_Inr [OF Inr] have none: "handlers e m = None"
      and h': "handlers e' = (handlers e)(m \<mapsto> h)" by simp_all
    have "(\<exists>x. setHandlers e (m # ms) h = Inl x) \<longleftrightarrow> (\<exists>x. setHandlers e' ms h = Inl x)"
      using Inr by simp
    also have "\<dots> \<longleftrightarrow> (\<exists>k\<in>set ms. handlers e' k \<noteq> None) \<or> \<not> distinct ms"
      by (rule Cons.IH)
    also have "\<dots> \<longleftrightarrow> (\<exists>k\<in>set (m # ms). handlers e k \<noteq> None) \<or> \<not> distinct (m # ms)"
      using none h' by auto
    finally show ?thesis .
  qed
qed

lemma setHandlers_Inr:
  "setHandlers e ms h = Inr e' \<Longrightarrow>
     pattern e' = pattern e \<and> params e' = params e \<and>
     (\<forall>m. handlers e' m = (if m \<in> set ms then Some h else handlers e m))"
proof (induction ms arbitrary: e)
  case Nil
  then show ?case by simp
next
  case (Cons m ms)
  from Cons.prems obtain e1 where e1: "muxEntry_setHandler e m h = Inr e1"
    and rest: "setHandlers e1 ms h = Inr e'"
    by (auto split: sum.splits)
  from setHandler_Inr [OF e1] Cons.IH [OF rest] show ?case by auto
qed

lemma entry_at_Nil: "entry_at n [] = entry n"
  by (simp add: entry_at_def)

lemma entry_at_Cons:
  "entry_at n (k # ks) = (case children n k of None \<Rightarrow> None | Some c \<Rightarrow> entry_at c ks)"
  by (simp add: entry_at_def split: option.splits)

lemma entry_at_fresh: "entry_at (Node Map.empty None) ks = None"
  by (cases ks) (simp_all add: entry_at_Nil entry_at_Cons)

lemma HandleMethods_entry_Inl:
  "(\<exists>x. HandleMethods_entry ms pat h ps current = Inl x) \<longleftrightarrow>
     (\<exists>m\<in>set ms. \<exists>e. entry current = Some e \<and> handlers e m \<noteq> None) \<or> \<not> distinct ms"
proof (cases "entry current")
  case None
  let ?e = "\<lparr>pattern = pat, params = ps, handlers = Map.empty, methods = Methods [MethodOptions]\<rparr>"
  have "(\<exists>x. HandleMethods_entry ms pat h ps current = Inl x) \<longleftrightarrow> (\<exists>x. setHandlers ?e ms h = Inl x)"
    using None by (auto simp: HandleMethods_entry_def split: sum.splits)
  then show ?thesis using None by (simp add: setHandlers_Inl)
next
  case (Some e)
  have "(\<exists>x. HandleMethods_entry ms pat h ps current = Inl x) \<longleftrightarrow> (\<exists>x. setHandlers e ms h = Inl x)"
    using Some by (auto simp: HandleMethods_entry_def split: sum.splits)
  then show ?thesis using Some by (simp add: setHandlers_Inl)
qed

lemma segment_key_unfold:
  "(if head \<noteq> [] \<and> (hd head = CHR '':'' \<or> hd head = CHR ''*'') then ''*'' else head) = segment_key head"
  by (simp add: segment_key_def placeholder_def)

lemma HandleMethods_loop_Inl:
  "segments path = Inr segs \<Longrightarrow>
   (\<exists>x. HandleMethods_loop ms pat h path ps current = Inl x) \<longleftrightarrow>
     (\<exists>m\<in>set ms. \<exists>e. entry_at current (map segment_key segs) = Some e \<and> handlers e m \<noteq> None)
       \<or> \<not> distinct ms"
proof (induction path arbitrary: segs ps current rule: length_induct)
  case (1 path)
  show ?case
  proof (cases path)
    case Nil
    with "1.prems" have "segs = []" by (simp add: segments_Nil)
    with Nil show ?thesis
      by (simp add: HandleMethods_loop_Nil HandleMethods_entry_Inl entry_at_Nil)
  next
    case (Cons c s)
    let ?head = "takeWhile (\<lambda>x. x \<noteq> CHR ''/'') s"
    let ?tail = "dropWhile (\<lambda>x. x \<noteq> CHR ''/'') s"
    let ?key = "segment_key ?head"
    let ?next = "case children current ?key of Some n \<Rightarrow> n | None \<Rightarrow> Node Map.empty None"
    from "1.prems" Cons obtain segs' where tl: "segments ?tail = Inr segs'"
      and segs: "segs = ?head # segs'"
      by (auto simp: segments_Cons split: sum.splits)
    have shorter: "length ?tail < length path"
      using Cons by (simp add: length_dropWhile_le le_imp_less_Suc)
    have IH: "\<And>ps' n. (\<exists>x. HandleMethods_loop ms pat h ?tail ps' n = Inl x) \<longleftrightarrow>
        (\<exists>m\<in>set ms. \<exists>e. entry_at n (map segment_key segs') = Some e \<and> handlers e m \<noteq> None)
          \<or> \<not> distinct ms"
      using "1.IH" shorter tl by blast
    have at: "entry_at current (map segment_key segs) = entry_at ?next (map segment_key segs')"
      using segs by (simp add: entry_at_Cons entry_at_fresh split: option.splits)
    have "(\<exists>x. HandleMethods_loop ms pat h path ps current = Inl x) \<longleftrightarrow>
        (\<exists>x. HandleMethods_loop ms pat h ?tail
               (if placeholder ?head then ps @ [drop 1 ?head] else ps) ?next = Inl x)"
      unfolding Cons
      by (simp add: HandleMethods_loop_Cons Let_def segment_key_def placeholder_def split: sum.splits)
    then show ?thesis using IH at by simp
  qed
qed

text \<open>
  C6. \<open>HandleMethods\<close> panics exactly when the method set is empty, the pattern is the
  empty string, the handler is \<^verbatim>\<open>nil\<close>, or one of the given methods already has a
  handler on the entry of the pattern's node when it is to be bound: a handler from
  an earlier registration or, for a hand-written \<^verbatim>\<open>MethodSet\<close> that names a method
  twice, from the first occurrence in the same call. For a method set without
  repetition, as \<^verbatim>\<open>Methods\<close>, \<^verbatim>\<open>Add\<close> and \<^verbatim>\<open>AnyMethod\<close> build it, the last
  alternative is void. In every other case the registration returns the updated mux.
\<close>

theorem registration_panics_iff:
  "(\<exists>x. HandleMethods mux ms pat handler = Inl x) \<longleftrightarrow>
     ms = [] \<or> pat = [] \<or> handler = None \<or>
     (\<exists>m\<in>set ms. \<exists>e. entry_at (root mux) (pattern_keys pat) = Some e \<and> handlers e m \<noteq> None) \<or>
     \<not> distinct ms"
proof -
  obtain segs where segs: "segments (cleanPath pat) = Inr segs"
    using segments_total by blast
  then have keys: "pattern_keys pat = map segment_key segs"
    by (simp add: pattern_keys_def)
  show ?thesis
  proof (cases "ms = [] \<or> pat = [] \<or> handler = None")
    case True
    then show ?thesis by (auto simp: HandleMethods_def)
  next
    case False
    then obtain h where h: "handler = Some h" by auto
    from False h have "(\<exists>x. HandleMethods mux ms pat handler = Inl x) \<longleftrightarrow>
        (\<exists>x. HandleMethods_loop ms pat h (cleanPath pat) [] (root mux) = Inl x)"
      by (auto simp: HandleMethods_def split: sum.splits)
    with False h show ?thesis
      by (simp add: HandleMethods_loop_Inl [OF segs] keys)
  qed
qed

theorem registration_panics_iff_witness:
  "(\<exists>x. HandleMethods
      \<lparr>errHandler = StatusErrorHandler_ErrorHTTP,
       root = Node [''users'' \<mapsto> Node Map.empty
                (Some \<lparr>pattern = ''/users'', params = [], handlers = [MethodGet \<mapsto> (7::nat)],
                       methods = [MethodOptions, MethodGet, MethodHead]\<rparr>)] None\<rparr>
      [MethodGet] ''/users'' (Some 8) = Inl x) \<and>
   \<not> (\<exists>x. HandleMethods
      \<lparr>errHandler = StatusErrorHandler_ErrorHTTP,
       root = Node [''users'' \<mapsto> Node Map.empty
                (Some \<lparr>pattern = ''/users'', params = [], handlers = [MethodGet \<mapsto> (7::nat)],
                       methods = [MethodOptions, MethodGet, MethodHead]\<rparr>)] None\<rparr>
      [MethodPost] ''/users'' (Some 8) = Inl x)"
proof -
  let ?mux = "\<lparr>errHandler = StatusErrorHandler_ErrorHTTP,
       root = Node [''users'' \<mapsto> Node Map.empty
                (Some \<lparr>pattern = ''/users'', params = [], handlers = [MethodGet \<mapsto> (7::nat)],
                       methods = [MethodOptions, MethodGet, MethodHead]\<rparr>)] None\<rparr>"
  have keys: "pattern_keys ''/users'' = [''users'']"
    by (simp add: pattern_keys_def cleanPath_def segments_Cons segments_Nil
        segment_key_def placeholder_def)
  show ?thesis
    using registration_panics_iff [of ?mux "[MethodGet]" "''/users''" "Some 8"]
      registration_panics_iff [of ?mux "[MethodPost]" "''/users''" "Some 8"]
    by (simp add: keys entry_at_def)
qed

subsection \<open>Entries and the patterns they carry\<close>

lemma segment_names_Cons:
  "segment_names (s # segs) = (if placeholder s then drop 1 s # segment_names segs else segment_names segs)"
  by (simp add: segment_names_def)

lemma HandleMethods_entry_result:
  assumes "HandleMethods_entry ms pat h ps current = Inr current'"
  shows "\<exists>e'. setHandlers (case entry current of
                   None \<Rightarrow> \<lparr>pattern = pat, params = ps, handlers = Map.empty,
                             methods = Methods [MethodOptions]\<rparr>
                 | Some e \<Rightarrow> e) ms h = Inr e' \<and>
              current' = Node (children current) (Some e')"
  using assms by (auto simp: HandleMethods_entry_def Let_def split: sum.splits)

lemma HandleMethods_loop_result:
  "segments path = Inr segs \<Longrightarrow>
   HandleMethods_loop ms pat h path ps current = Inr current' \<Longrightarrow>
   \<exists>e'. setHandlers (case entry_at current (map segment_key segs) of
                   None \<Rightarrow> \<lparr>pattern = pat, params = ps @ segment_names segs,
                             handlers = Map.empty, methods = Methods [MethodOptions]\<rparr>
                 | Some e \<Rightarrow> e) ms h = Inr e' \<and>
        (\<forall>ks. entry_at current' ks =
               (if ks = map segment_key segs then Some e' else entry_at current ks))"
proof (induction path arbitrary: segs ps current current' rule: length_induct)
  case (1 path)
  show ?case
  proof (cases path)
    case Nil
    with "1.prems" have segs: "segs = []" by (simp add: segments_Nil)
    from "1.prems"(2) Nil have "HandleMethods_entry ms pat h ps current = Inr current'"
      by (simp add: HandleMethods_loop_Nil)
    from HandleMethods_entry_result [OF this] obtain e' where
      e': "setHandlers (case entry current of
                   None \<Rightarrow> \<lparr>pattern = pat, params = ps, handlers = Map.empty,
                             methods = Methods [MethodOptions]\<rparr>
                 | Some e \<Rightarrow> e) ms h = Inr e'"
      and c': "current' = Node (children current) (Some e')" by blast
    have "entry_at current' ks = (if ks = [] then Some e' else entry_at current ks)" for ks
      using c' by (cases ks) (simp_all add: entry_at_Nil entry_at_Cons)
    with e' segs show ?thesis
      by (simp add: entry_at_Nil segment_names_def cong: option.case_cong)
  next
    case (Cons c s)
    let ?head = "takeWhile (\<lambda>x. x \<noteq> CHR ''/'') s"
    let ?tail = "dropWhile (\<lambda>x. x \<noteq> CHR ''/'') s"
    let ?key = "segment_key ?head"
    let ?ps = "if placeholder ?head then ps @ [drop 1 ?head] else ps"
    let ?next = "case children current ?key of Some n \<Rightarrow> n | None \<Rightarrow> Node Map.empty None"
    from "1.prems"(1) Cons obtain segs' where tl: "segments ?tail = Inr segs'"
      and segs: "segs = ?head # segs'"
      by (auto simp: segments_Cons split: sum.splits)
    have shorter: "length ?tail < length path"
      using Cons by (simp add: length_dropWhile_le le_imp_less_Suc)
    from "1.prems"(2) obtain next' where
      rec: "HandleMethods_loop ms pat h ?tail ?ps ?next = Inr next'"
      and c': "current' = node_addChild current ?key next'"
      unfolding Cons
      by (auto simp: HandleMethods_loop_Cons Let_def segment_key_def placeholder_def
          split: sum.splits)
    from "1.IH" [rule_format, OF shorter tl rec] obtain e' where
      e': "setHandlers (case entry_at ?next (map segment_key segs') of
                   None \<Rightarrow> \<lparr>pattern = pat, params = ?ps @ segment_names segs',
                             handlers = Map.empty, methods = Methods [MethodOptions]\<rparr>
                 | Some e \<Rightarrow> e) ms h = Inr e'"
      and at': "\<And>ks. entry_at next' ks =
               (if ks = map segment_key segs' then Some e' else entry_at ?next ks)" by blast
    have nxt: "entry_at ?next ks = entry_at current (?key # ks)" for ks
      by (simp add: entry_at_Cons entry_at_fresh split: option.splits)
    have names: "?ps @ segment_names segs' = ps @ segment_names segs"
      using segs by (simp add: segment_names_Cons)
    have "entry_at current' ks =
            (if ks = map segment_key segs then Some e' else entry_at current ks)" for ks
    proof (cases ks)
      case Nil
      then show ?thesis using c' segs by (simp add: entry_at_Nil node_addChild_def)
    next
      case (Cons k ks')
      then show ?thesis
        using c' segs at' [of ks'] nxt [of ks']
        by (auto simp: entry_at_Cons node_addChild_def)
    qed
    moreover have "setHandlers (case entry_at current (map segment_key segs) of
                   None \<Rightarrow> \<lparr>pattern = pat, params = ps @ segment_names segs,
                             handlers = Map.empty, methods = Methods [MethodOptions]\<rparr>
                 | Some e \<Rightarrow> e) ms h = Inr e'"
    proof -
      from e' have "setHandlers (case entry_at current (?key # map segment_key segs') of
                   None \<Rightarrow> \<lparr>pattern = pat, params = ps @ segment_names segs,
                             handlers = Map.empty, methods = Methods [MethodOptions]\<rparr>
                 | Some e \<Rightarrow> e) ms h = Inr e'"
        unfolding nxt names .
      then show ?thesis using segs by simp
    qed
    ultimately show ?thesis by blast
  qed
qed

lemma HandleMethods_result:
  assumes "HandleMethods mux ms pat handler = Inr mux'"
  shows "\<exists>h e'. handler = Some h \<and>
     setHandlers (case entry_at (root mux) (pattern_keys pat) of
                   None \<Rightarrow> \<lparr>pattern = pat, params = pattern_names pat,
                             handlers = Map.empty, methods = Methods [MethodOptions]\<rparr>
                 | Some e \<Rightarrow> e) ms h = Inr e' \<and>
     (\<forall>ks. entry_at (root mux') ks =
               (if ks = pattern_keys pat then Some e' else entry_at (root mux) ks))"
proof -
  obtain segs where segs: "segments (cleanPath pat) = Inr segs"
    using segments_total by blast
  from assms obtain h r where h: "handler = Some h"
    and loop: "HandleMethods_loop ms pat h (cleanPath pat) [] (root mux) = Inr r"
    and mux': "mux' = mux\<lparr>root := r\<rparr>"
    by (auto simp: HandleMethods_def split: if_splits option.splits sum.splits)
  from HandleMethods_loop_result [OF segs loop] h mux' segs show ?thesis
    by (simp add: pattern_keys_def pattern_names_def cong: option.case_cong)
qed

lemma registered_entries:
  "registered mux \<Longrightarrow> entry_at (root mux) ks = Some e \<Longrightarrow>
     ks = pattern_keys (pattern e) \<and> params e = pattern_names (pattern e)"
proof (induction arbitrary: ks e rule: registered.induct)
  case new
  then show ?case by (simp add: NewMux_def entry_at_fresh)
next
  case (handle mux ms pat handler mux')
  from HandleMethods_result [OF handle.hyps(2)] obtain h e' where
    e': "setHandlers (case entry_at (root mux) (pattern_keys pat) of
                   None \<Rightarrow> \<lparr>pattern = pat, params = pattern_names pat,
                             handlers = Map.empty, methods = Methods [MethodOptions]\<rparr>
                 | Some e \<Rightarrow> e) ms h = Inr e'"
    and at: "\<And>ks. entry_at (root mux') ks =
               (if ks = pattern_keys pat then Some e' else entry_at (root mux) ks)" by blast
  show ?case
  proof (cases "ks = pattern_keys pat")
    case False
    with at [of ks] handle.prems handle.IH show ?thesis by simp
  next
    case True
    with at [of ks] handle.prems have ee: "e = e'" by simp
    show ?thesis
    proof (cases "entry_at (root mux) (pattern_keys pat)")
      case None
      with e' setHandlers_Inr [of _ ms h e'] have "pattern e' = pat" "params e' = pattern_names pat"
        by auto
      with ee True show ?thesis by simp
    next
      case (Some e0)
      with e' setHandlers_Inr [of e0 ms h e'] have "pattern e' = pattern e0" "params e' = params e0"
        by auto
      with handle.IH [OF Some] ee True show ?thesis by simp
    qed
  qed
qed

lemma pattern_keys_nonempty: "pattern_keys pat \<noteq> []"
proof -
  have "cleanPath pat \<noteq> []"
    by (cases pat) (simp_all add: cleanPath_def)
  then obtain c s where "cleanPath pat = c # s"
    by (auto simp: neq_Nil_conv)
  moreover obtain hs where "segments (dropWhile (\<lambda>x. x \<noteq> CHR ''/'') s) = Inr hs"
    using segments_total by blast
  ultimately show ?thesis
    by (simp add: pattern_keys_def segments_Cons)
qed

lemma registered_root_no_entry: "registered mux \<Longrightarrow> entry (root mux) = None"
proof (rule ccontr)
  assume reg: "registered mux" and "entry (root mux) \<noteq> None"
  then obtain e where "entry_at (root mux) [] = Some e" by (auto simp: entry_at_Nil)
  from registered_entries [OF reg this] pattern_keys_nonempty [of "pattern e"]
  show False by simp
qed

text \<open>
  C8, as the code has it. An entry belongs to a node of the tree, that is to a key
  sequence: the segments of the cleaned pattern with every placeholder segment,
  whatever its name, filed under the one wildcard key. A registration on a mux built
  by registrations leaves the entry of every other key sequence as it was, and
  creates or extends the entry at its own pattern's key sequence, where its handler
  is bound to each given method; a new entry takes the pattern text and the
  placeholder names of this registration, an existing one keeps those it has. So
  registrations share an entry exactly when their patterns have the same key
  sequence, and every entry carries the text and the placeholder names, in order, of
  the pattern that was registered first for its node.
\<close>

theorem one_entry_per_key_sequence:
  assumes "registered mux" and "HandleMethods mux ms pat handler = Inr mux'"
  shows "(\<forall>ks. ks \<noteq> pattern_keys pat \<longrightarrow> entry_at (root mux') ks = entry_at (root mux) ks) \<and>
         (\<exists>e'. entry_at (root mux') (pattern_keys pat) = Some e' \<and>
               (\<forall>m\<in>set ms. handlers e' m = handler) \<and>
               (case entry_at (root mux) (pattern_keys pat) of
                  None \<Rightarrow> pattern e' = pat \<and> params e' = pattern_names pat
                | Some e \<Rightarrow> pattern e' = pattern e \<and> params e' = params e)) \<and>
         (\<forall>ks e. entry_at (root mux') ks = Some e \<longrightarrow>
               ks = pattern_keys (pattern e) \<and> params e = pattern_names (pattern e))"
proof (intro conjI)
  from HandleMethods_result [OF assms(2)] obtain h e' where h: "handler = Some h" and
    e': "setHandlers (case entry_at (root mux) (pattern_keys pat) of
                   None \<Rightarrow> \<lparr>pattern = pat, params = pattern_names pat,
                             handlers = Map.empty, methods = Methods [MethodOptions]\<rparr>
                 | Some e \<Rightarrow> e) ms h = Inr e'"
    and at: "\<And>ks. entry_at (root mux') ks =
               (if ks = pattern_keys pat then Some e' else entry_at (root mux) ks)" by blast
  show "\<forall>ks. ks \<noteq> pattern_keys pat \<longrightarrow> entry_at (root mux') ks = entry_at (root mux) ks"
    using at by simp
  have "entry_at (root mux') (pattern_keys pat) = Some e'" using at by simp
  moreover have "\<forall>m\<in>set ms. handlers e' m = handler"
    using setHandlers_Inr [OF e'] h by simp
  moreover have "case entry_at (root mux) (pattern_keys pat) of
                  None \<Rightarrow> pattern e' = pat \<and> params e' = pattern_names pat
                | Some e \<Rightarrow> pattern e' = pattern e \<and> params e' = params e"
    using setHandlers_Inr [OF e'] by (simp split: option.splits)
  ultimately show "\<exists>e'. entry_at (root mux') (pattern_keys pat) = Some e' \<and>
               (\<forall>m\<in>set ms. handlers e' m = handler) \<and>
               (case entry_at (root mux) (pattern_keys pat) of
                  None \<Rightarrow> pattern e' = pat \<and> params e' = pattern_names pat
                | Some e \<Rightarrow> pattern e' = pattern e \<and> params e' = params e)"
    by blast
  have "registered mux'" using assms by (rule registered.handle)
  then show "\<forall>ks e. entry_at (root mux') ks = Some e \<longrightarrow>
               ks = pattern_keys (pattern e) \<and> params e = pattern_names (pattern e)"
    using registered_entries by blast
qed


theorem one_entry_per_key_sequence_witness:
  "\<exists>e'. entry_at
       (Node [''users'' \<mapsto> Node [''*'' \<mapsto> Node Map.empty
          (Some \<lparr>pattern = ''/users/:id'', params = [''id''],
                  handlers = [MethodGet \<mapsto> (1::nat), MethodPost \<mapsto> 2],
                  methods = [MethodOptions, MethodGet, MethodHead, MethodPost]\<rparr>)] None] None)
       (pattern_keys ''/users/:name'') = Some e' \<and>
     handlers e' MethodPost = Some 2 \<and> pattern e' = ''/users/:id'' \<and> params e' = [''id'']"
proof -
  let ?e1 = "\<lparr>pattern = ''/users/:id'', params = [''id''],
                  handlers = [MethodGet \<mapsto> (1::nat)],
                  methods = [MethodOptions, MethodGet, MethodHead]\<rparr>"
  let ?e2 = "\<lparr>pattern = ''/users/:id'', params = [''id''],
                  handlers = [MethodGet \<mapsto> (1::nat), MethodPost \<mapsto> 2],
                  methods = [MethodOptions, MethodGet, MethodHead, MethodPost]\<rparr>"
  let ?m1 = "\<lparr>errHandler = StatusErrorHandler_ErrorHTTP,
      root = Node [''users'' \<mapsto> Node [''*'' \<mapsto> Node Map.empty (Some ?e1)] None] None\<rparr>"
  let ?m2 = "\<lparr>errHandler = StatusErrorHandler_ErrorHTTP,
      root = Node [''users'' \<mapsto> Node [''*'' \<mapsto> Node Map.empty (Some ?e2)] None] None\<rparr>"
  have r1: "HandleMethods NewMux [MethodGet] ''/users/:id'' (Some 1) = Inr ?m1"
    by (simp add: eval_simps)
  have r2: "HandleMethods ?m1 [MethodPost] ''/users/:name'' (Some 2) = Inr ?m2"
    by (simp add: eval_simps)
  have reg: "registered ?m1"
    using registered.new r1 by (rule registered.handle)
  have keys: "pattern_keys ''/users/:name'' = [''users'', ''*'']"
    by (simp add: pattern_keys_def cleanPath_def segments_Cons segments_Nil
        segment_key_def placeholder_def)
  from one_entry_per_key_sequence [OF reg r2] show ?thesis
    by (simp add: keys entry_at_def)
qed

text \<open>
  C8, as stated, fails: \<open>GET /users/:id\<close> and \<open>POST /users/:name\<close> are registrations
  with different pattern strings that share one entry. A \<open>POST\<close> request for
  \<open>/users/7\<close> finds the entry with both handlers; it reports the pattern
  \<open>/users/:id\<close> and the parameter name \<open>id\<close>, not those of the pattern the \<open>POST\<close>
  handler was registered with.
\<close>

theorem patterns_share_entry:
  "case Handle_all NewMux [(MethodGet, ''/users/:id'', 1::nat), (MethodPost, ''/users/:name'', 2)] of
     Inl x \<Rightarrow> False
   | Inr mux \<Rightarrow>
       Lookup mux \<lparr>Method = MethodPost, URL_Path = ''/users/7'', Ctx = None\<rparr> =
         Inr (Some \<lparr>muxEntry = Some \<lparr>pattern = ''/users/:id'', params = [''id''],
                       handlers = [MethodGet \<mapsto> 1, MethodPost \<mapsto> 2],
                       methods = [MethodOptions, MethodGet, MethodHead, MethodPost]\<rparr>,
                     mvalues = [''7'']\<rparr>)"
  by (simp add: eval_simps)

subsection \<open>Lookup is the segment walk\<close>

lemma spec_deepest_entry_Nil: "spec_deepest_entry [] = None"
  by (simp add: spec_deepest_entry_def List.map_filter_simps)

lemma spec_deepest_entry_Cons:
  "spec_deepest_entry (c # ns) =
     (case spec_deepest_entry ns of Some e \<Rightarrow> Some e | None \<Rightarrow> entry c)"
  by (cases "entry c") (simp_all add: spec_deepest_entry_def List.map_filter_simps Let_def)

lemma lookup_loop_spec:
  "segments path = Inr segs \<Longrightarrow> ''*'' \<notin> set segs \<Longrightarrow>
   lookup_loop path current ent vs =
     Inr (case spec_walk current segs of
            None \<Rightarrow> None
          | Some (ns, caps) \<Rightarrow>
              (case (case spec_deepest_entry ns of None \<Rightarrow> ent | Some e \<Rightarrow> Some e) of
                 None \<Rightarrow> None
               | Some e \<Rightarrow> Some \<lparr>muxEntry = Some e, mvalues = vs @ caps\<rparr>))"
proof (induction path arbitrary: segs current ent vs rule: length_induct)
  case (1 path)
  show ?case
  proof (cases path)
    case Nil
    with "1.prems" have "segs = []" by (simp add: segments_Nil)
    with Nil show ?thesis
      by (simp add: lookup_loop_Nil spec_deepest_entry_Nil split: option.splits)
  next
    case (Cons c s)
    let ?head = "takeWhile (\<lambda>x. x \<noteq> CHR ''/'') s"
    let ?tail = "dropWhile (\<lambda>x. x \<noteq> CHR ''/'') s"
    from "1.prems"(1) Cons obtain segs' where tl: "segments ?tail = Inr segs'"
      and segs: "segs = ?head # segs'"
      by (auto simp: segments_Cons split: sum.splits)
    from "1.prems"(2) segs have head: "?head \<noteq> ''*''" and nostar: "''*'' \<notin> set segs'"
      by auto
    have shorter: "length ?tail < length path"
      using Cons by (simp add: length_dropWhile_le le_imp_less_Suc)
    note IH = "1.IH" [rule_format, OF shorter tl nostar]
    show ?thesis
      unfolding Cons segs using head
      by (simp add: lookup_loop_Cons Let_def IH spec_step_def spec_deepest_entry_Cons
          split: option.splits)
  qed
qed

text \<open>
  Where no segment of the path is the text \<open>*\<close>, \<open>Lookup\<close> is the walk of the
  specification, on every tree.
\<close>

lemma Lookup_spec_lookup:
  assumes "segments (cleanPath (URL_Path r)) = Inr segs" and "''*'' \<notin> set segs"
  shows "Lookup mux r = Inr (spec_lookup (root mux) segs)"
  using lookup_loop_spec [OF assms, of "root mux" None "[]"]
  by (simp add: Lookup_def lookup_def spec_lookup_def split: option.splits)

lemma Lookup_literal_before_placeholder:
  "case Handle_all NewMux [(MethodGet, ''/users/new'', h1), (MethodGet, ''/users/:id'', h2)] of
     Inl x \<Rightarrow> False
   | Inr m \<Rightarrow>
       Lookup m \<lparr>Method = MethodGet, URL_Path = ''/users/new'', Ctx = None\<rparr> =
         Inr (Some \<lparr>muxEntry = Some \<lparr>pattern = ''/users/new'', params = [],
                       handlers = [MethodGet \<mapsto> h1],
                       methods = [MethodOptions, MethodGet, MethodHead]\<rparr>,
                     mvalues = []\<rparr>) \<and>
       Lookup m \<lparr>Method = MethodGet, URL_Path = ''/users/1'', Ctx = None\<rparr> =
         Inr (Some \<lparr>muxEntry = Some \<lparr>pattern = ''/users/:id'', params = [''id''],
                       handlers = [MethodGet \<mapsto> h2],
                       methods = [MethodOptions, MethodGet, MethodHead]\<rparr>,
                     mvalues = [''1'']\<rparr>)"
  by (simp add: eval_simps)

text \<open>
  C1. The claim asks that, for every request path, each segment take the literal
  child keyed by its text or else the wildcard child, capturing the segment. At the
  failing input, with \<open>/users/:id\<close> registered and the request path \<open>/users/*\<close>, the
  second segment is the very key the tree keeps the wildcard child under: \<open>Lookup\<close>
  finds that child by its first, exact-key, map access and captures nothing, where
  the walk of the specification reaches it by fallback and captures \<open>*\<close>. Both
  return the \<open>/users/:id\<close> entry.
\<close>

theorem lookup_star_segment_taken_as_literal:
  "case Handle NewMux MethodGet ''/users/:id'' (Some h) of
     Inl x \<Rightarrow> False
   | Inr mux \<Rightarrow>
       Lookup mux \<lparr>Method = MethodGet, URL_Path = ''/users/*'', Ctx = None\<rparr> =
         Inr (Some \<lparr>muxEntry = Some \<lparr>pattern = ''/users/:id'', params = [''id''],
                       handlers = [MethodGet \<mapsto> h],
                       methods = [MethodOptions, MethodGet, MethodHead]\<rparr>,
                     mvalues = []\<rparr>) \<and>
       spec_lookup (root mux) [''users'', ''*''] =
         Some \<lparr>muxEntry = Some \<lparr>pattern = ''/users/:id'', params = [''id''],
                  handlers = [MethodGet \<mapsto> h],
                  methods = [MethodOptions, MethodGet, MethodHead]\<rparr>,
               mvalues = [''*'']\<rparr>"
  by (simp add: eval_simps spec_lookup_def spec_step_def spec_deepest_entry_def
      List.map_filter_simps)

subsection \<open>Captured values and parameter names\<close>











subsection \<open>Looking up a registered pattern\<close>

lemma keys_ok_fresh: "keys_ok (Node Map.empty None)"
proof -
  have "descend (Node Map.empty None) ks = Some c \<Longrightarrow> c = Node Map.empty None" for ks and c :: "'a node"
    by (cases ks) simp_all
  then show ?thesis unfolding keys_ok_def by fastforce
qed

lemma keys_ok_here: "keys_ok n \<Longrightarrow> placeholder k \<Longrightarrow> k \<noteq> ''*'' \<Longrightarrow> children n k = None"
  unfolding keys_ok_def by (metis descend.simps(1))

lemma keys_ok_child: "keys_ok n \<Longrightarrow> children n k = Some c \<Longrightarrow> keys_ok c"
proof -
  assume ok: "keys_ok n" and ch: "children n k = Some c"
  have "descend c ks = descend n (k # ks)" for ks using ch by simp
  with ok show "keys_ok c" unfolding keys_ok_def by metis
qed

lemma keys_ok_intro:
  assumes "\<And>k. placeholder k \<Longrightarrow> k \<noteq> ''*'' \<Longrightarrow> children n k = None"
    and "\<And>k c. children n k = Some c \<Longrightarrow> keys_ok c"
  shows "keys_ok n"
  unfolding keys_ok_def
proof (intro allI impI)
  fix ks c k
  assume d: "descend n ks = Some c" and p: "placeholder k" and s: "k \<noteq> ''*''"
  show "children c k = None"
  proof (cases ks)
    case Nil
    with d assms(1) [OF p s] show ?thesis by simp
  next
    case (Cons k1 ks')
    with d obtain c1 where c1: "children n k1 = Some c1" and d1: "descend c1 ks' = Some c"
      by (auto split: option.splits)
    from assms(2) [OF c1] d1 p s show ?thesis unfolding keys_ok_def by blast
  qed
qed

lemma segment_key_not_placeholder: "placeholder (segment_key p) \<Longrightarrow> segment_key p = ''*''"
  by (auto simp: segment_key_def)

lemma HandleMethods_loop_keys_ok:
  "HandleMethods_loop ms pat h path ps current = Inr current' \<Longrightarrow> keys_ok current \<Longrightarrow>
     keys_ok current'"
proof (induction path arbitrary: ps current current' rule: length_induct)
  case (1 path)
  show ?case
  proof (cases path)
    case Nil
    with "1.prems"(1) have "HandleMethods_entry ms pat h ps current = Inr current'"
      by (simp add: HandleMethods_loop_Nil)
    from HandleMethods_entry_result [OF this] obtain e' where
      c': "current' = Node (children current) (Some e')" by blast
    show ?thesis
    proof (rule keys_ok_intro)
      fix k assume "placeholder k" "k \<noteq> ''*''"
      with keys_ok_here [OF "1.prems"(2)] c' show "children current' k = None" by simp
    next
      fix k c assume "children current' k = Some c"
      with c' have "children current k = Some c" by simp
      with "1.prems"(2) show "keys_ok c" by (rule keys_ok_child)
    qed
  next
    case (Cons c s)
    let ?head = "takeWhile (\<lambda>x. x \<noteq> CHR ''/'') s"
    let ?tail = "dropWhile (\<lambda>x. x \<noteq> CHR ''/'') s"
    let ?key = "segment_key ?head"
    let ?ps = "if placeholder ?head then ps @ [drop 1 ?head] else ps"
    let ?next = "case children current ?key of Some n \<Rightarrow> n | None \<Rightarrow> Node Map.empty None"
    have shorter: "length ?tail < length path"
      using Cons by (simp add: length_dropWhile_le le_imp_less_Suc)
    from "1.prems"(1) obtain next' where
      rec: "HandleMethods_loop ms pat h ?tail ?ps ?next = Inr next'"
      and c': "current' = node_addChild current ?key next'"
      unfolding Cons
      by (auto simp: HandleMethods_loop_Cons Let_def segment_key_def placeholder_def
          split: sum.splits)
    have "keys_ok ?next"
      using "1.prems"(2) by (auto split: option.splits intro: keys_ok_fresh keys_ok_child)
    with "1.IH" shorter rec have ok': "keys_ok next'" by blast
    show ?thesis
    proof (rule keys_ok_intro)
      fix k assume p: "placeholder k" and s: "k \<noteq> ''*''"
      then have "k \<noteq> ?key" using segment_key_not_placeholder by blast
      with keys_ok_here [OF "1.prems"(2) p s] c' show "children current' k = None"
        by (simp add: node_addChild_def)
    next
      fix k c0 assume "children current' k = Some c0"
      with c' have "c0 = next' \<or> children current k = Some c0"
        by (auto simp: node_addChild_def split: if_splits)
      with ok' "1.prems"(2) show "keys_ok c0" by (auto intro: keys_ok_child)
    qed
  qed
qed

lemma registered_keys_ok: "registered mux \<Longrightarrow> keys_ok (root mux)"
proof (induction rule: registered.induct)
  case new
  then show ?case by (simp add: NewMux_def keys_ok_fresh)
next
  case (handle mux ms pat handler mux')
  from handle.hyps(2) obtain h r where
    loop: "HandleMethods_loop ms pat h (cleanPath pat) [] (root mux) = Inr r"
    and mux': "mux' = mux\<lparr>root := r\<rparr>"
    by (auto simp: HandleMethods_def split: if_splits option.splits sum.splits)
  from HandleMethods_loop_keys_ok [OF loop handle.IH] mux' show ?case by simp
qed

lemma lookup_loop_after_register:
  "segments path = Inr segs \<Longrightarrow>
   HandleMethods_loop ms pat h path ps current = Inr current' \<Longrightarrow> keys_ok current \<Longrightarrow>
   \<exists>e' caps. entry_at current' (map segment_key segs) = Some e' \<and>
     lookup_loop path current' (case entry current' of Some e \<Rightarrow> Some e | None \<Rightarrow> ent) vs =
       Inr (Some \<lparr>muxEntry = Some e', mvalues = vs @ caps\<rparr>)"
proof (induction path arbitrary: segs ps current current' ent vs rule: length_induct)
  case (1 path)
  show ?case
  proof (cases path)
    case Nil
    with "1.prems"(1) have segs: "segs = []" by (simp add: segments_Nil)
    from "1.prems"(2) Nil have "HandleMethods_entry ms pat h ps current = Inr current'"
      by (simp add: HandleMethods_loop_Nil)
    from HandleMethods_entry_result [OF this] obtain e' where
      c': "current' = Node (children current) (Some e')" by blast
    with Nil segs show ?thesis by (simp add: entry_at_Nil lookup_loop_Nil)
  next
    case (Cons c s)
    let ?head = "takeWhile (\<lambda>x. x \<noteq> CHR ''/'') s"
    let ?tail = "dropWhile (\<lambda>x. x \<noteq> CHR ''/'') s"
    let ?key = "segment_key ?head"
    let ?ps = "if placeholder ?head then ps @ [drop 1 ?head] else ps"
    let ?next = "case children current ?key of Some n \<Rightarrow> n | None \<Rightarrow> Node Map.empty None"
    let ?ent = "case entry current' of Some e \<Rightarrow> Some e | None \<Rightarrow> ent"
    from "1.prems"(1) Cons obtain segs' where tl: "segments ?tail = Inr segs'"
      and segs: "segs = ?head # segs'"
      by (auto simp: segments_Cons split: sum.splits)
    have shorter: "length ?tail < length path"
      using Cons by (simp add: length_dropWhile_le le_imp_less_Suc)
    from "1.prems"(2) obtain next' where
      rec: "HandleMethods_loop ms pat h ?tail ?ps ?next = Inr next'"
      and c': "current' = node_addChild current ?key next'"
      unfolding Cons
      by (auto simp: HandleMethods_loop_Cons Let_def segment_key_def placeholder_def
          split: sum.splits)
    have ok: "keys_ok ?next"
      using "1.prems"(3) by (auto split: option.splits intro: keys_ok_fresh keys_ok_child)
    have step: "\<exists>vs'. lookup_loop path current' ?ent vs =
        lookup_loop ?tail next' (case entry next' of Some e \<Rightarrow> Some e | None \<Rightarrow> ?ent) vs' \<and>
        (\<exists>cap. vs' = vs @ cap)"
    proof (cases "placeholder ?head \<and> ?head \<noteq> ''*''")
      case True
      then have key: "?key = ''*''" by (simp add: segment_key_def)
      from True keys_ok_here [OF "1.prems"(3)] have "children current ?head = None" by blast
      with True c' key have "children current' ?head = None" "children current' ''*'' = Some next'"
        by (simp_all add: node_addChild_def)
      then have "lookup_loop path current' ?ent vs =
          lookup_loop ?tail next' (case entry next' of Some e \<Rightarrow> Some e | None \<Rightarrow> ?ent)
            (vs @ [?head])"
        unfolding Cons by (simp add: lookup_loop_Cons Let_def)
      then show ?thesis by blast
    next
      case False
      then have key: "?key = ?head" by (auto simp: segment_key_def)
      with c' have "children current' ?head = Some next'" by (simp add: node_addChild_def)
      then have "lookup_loop path current' ?ent vs =
          lookup_loop ?tail next' (case entry next' of Some e \<Rightarrow> Some e | None \<Rightarrow> ?ent)
            (vs @ [])"
        unfolding Cons by (simp add: lookup_loop_Cons Let_def)
      then show ?thesis by blast
    qed
    then obtain vs' cap where
      l1: "lookup_loop path current' ?ent vs =
        lookup_loop ?tail next' (case entry next' of Some e \<Rightarrow> Some e | None \<Rightarrow> ?ent) vs'"
      and vs': "vs' = vs @ cap" by blast
    from "1.IH" [rule_format, OF shorter tl rec ok, of ?ent vs'] obtain e' caps where
      at: "entry_at next' (map segment_key segs') = Some e'" and
      l2: "lookup_loop ?tail next' (case entry next' of Some e \<Rightarrow> Some e | None \<Rightarrow> ?ent) vs' =
        Inr (Some \<lparr>muxEntry = Some e', mvalues = vs' @ caps\<rparr>)" by blast
    have "entry_at current' (map segment_key segs) = Some e'"
      using at c' segs by (simp add: entry_at_Cons node_addChild_def)
    moreover have "lookup_loop path current' ?ent vs =
        Inr (Some \<lparr>muxEntry = Some e', mvalues = vs @ (cap @ caps)\<rparr>)"
      using l1 l2 vs' by simp
    ultimately show ?thesis by blast
  qed
qed

lemma Lookup_registered_pattern:
  assumes reg: "registered mux" and h: "HandleMethods mux ms pat handler = Inr mux'"
  shows "\<exists>e' vs. entry_at (root mux') (pattern_keys pat) = Some e' \<and>
     Lookup mux' \<lparr>Method = m, URL_Path = pat, Ctx = c\<rparr> =
       Inr (Some \<lparr>muxEntry = Some e', mvalues = vs\<rparr>)"
proof -
  obtain segs where segs: "segments (cleanPath pat) = Inr segs"
    using segments_total by blast
  from h obtain g r where
    loop: "HandleMethods_loop ms pat g (cleanPath pat) [] (root mux) = Inr r"
    and mux': "mux' = mux\<lparr>root := r\<rparr>"
    by (auto simp: HandleMethods_def split: if_splits option.splits sum.splits)
  have "registered mux'" using reg h by (rule registered.handle)
  then have "entry r = None" using registered_root_no_entry mux' by fastforce
  with lookup_loop_after_register [OF segs loop registered_keys_ok [OF reg], of None "[]"]
  show ?thesis using mux' segs
    by (simp add: Lookup_def lookup_def pattern_keys_def)
qed

subsection \<open>Dispatch\<close>

lemma lookup_Reset: "lookup mux r (MuxMatch_Reset p) = Lookup mux r"
  by (simp add: lookup_def Lookup_def MuxMatch_Reset_def)

text \<open>
  On a pooled pointer that is not \<^verbatim>\<open>nil\<close>, and a path that matches, the handler is
  resolved in a fixed order: the handler bound to the request method; if there is
  none and the method is \<open>HEAD\<close>, the handler bound to \<open>GET\<close>; if there is still none
  and the method is \<open>OPTIONS\<close>, the \<open>Allow\<close> header with the matched entry's methods,
  joined by a comma and a blank, and status 204.
\<close>

lemma ServeHTTPErr_resolution_order:
  assumes "lookup mux r (MuxMatch_Reset p) = Inr (Some match)"
    and "muxEntry match = Some e"
  shows "(\<forall>h. handlers e (Method r) = Some h \<longrightarrow>
            ServeHTTPErr mux (Some p) r =
              Inr ([], ServeHandler h (r\<lparr>Ctx := Some match\<rparr>), Some match)) \<and>
         (\<forall>h. handlers e (Method r) = None \<and> Method r = MethodHead \<and>
              handlers e MethodGet = Some h \<longrightarrow>
            ServeHTTPErr mux (Some p) r =
              Inr ([], ServeHandler h (r\<lparr>Ctx := Some match\<rparr>), Some match)) \<and>
         (handlers e (Method r) = None \<and> Method r = MethodOptions \<longrightarrow>
            ServeHTTPErr mux (Some p) r =
              Inr ([HeaderAdd ''Allow'' (Join (methods e) '', ''),
                    WriteHeader StatusNoContent], ReturnNil, Some match))"
  using assms
  by (auto simp: ServeHTTPErr_def Let_def MuxMatch_Handler_def MuxMatch_Methods_def
      MethodSet_String_def)

lemma ServeHTTPErr_fresh_pool:
  "case Handle NewMux MethodGet ''/users'' (Some g) of
     Inl x \<Rightarrow> False
   | Inr mux \<Rightarrow>
       ServeHTTPErr mux pool_New \<lparr>Method = MethodHead, URL_Path = ''/users'', Ctx = c\<rparr> =
         Inr ([], ServeHandler g
           \<lparr>Method = MethodHead, URL_Path = ''/users'',
            Ctx = Some \<lparr>muxEntry = Some \<lparr>pattern = ''/users'', params = [],
                           handlers = [MethodGet \<mapsto> g],
                           methods = [MethodOptions, MethodGet, MethodHead]\<rparr>,
                        mvalues = []\<rparr>\<rparr>,
           Some \<lparr>muxEntry = Some \<lparr>pattern = ''/users'', params = [],
                    handlers = [MethodGet \<mapsto> g],
                    methods = [MethodOptions, MethodGet, MethodHead]\<rparr>,
                 mvalues = []\<rparr>) \<and>
       ServeHTTPErr mux pool_New \<lparr>Method = MethodOptions, URL_Path = ''/users'', Ctx = c\<rparr> =
         Inr ([HeaderAdd ''Allow'' ''OPTIONS, GET, HEAD'', WriteHeader StatusNoContent],
           ReturnNil,
           Some \<lparr>muxEntry = Some \<lparr>pattern = ''/users'', params = [],
                    handlers = [MethodGet \<mapsto> g],
                    methods = [MethodOptions, MethodGet, MethodHead]\<rparr>,
                 mvalues = []\<rparr>)"
  by (simp add: eval_simps)

text \<open>
  \<open>GET\<close> registered for any pattern on a mux built by registrations, with no \<open>HEAD\<close>
  handler on the pattern's entry: a \<open>HEAD\<close> request whose path is the pattern, on a
  pooled pointer that is not \<^verbatim>\<open>nil\<close>, is served by the \<open>GET\<close> handler.
\<close>

lemma HEAD_served_by_GET:
  assumes reg: "registered mux0"
    and h: "HandleMethods mux0 [MethodGet] pat (Some g) = Inr mux1"
    and nohead: "\<forall>e. entry_at (root mux0) (pattern_keys pat) = Some e \<longrightarrow>
               handlers e MethodHead = None"
  shows "\<exists>m. ServeHTTPErr mux1 (Some p) \<lparr>Method = MethodHead, URL_Path = pat, Ctx = c\<rparr> =
      Inr ([], ServeHandler g \<lparr>Method = MethodHead, URL_Path = pat, Ctx = Some m\<rparr>, Some m)"
proof -
  let ?r = "\<lparr>Method = MethodHead, URL_Path = pat, Ctx = c\<rparr>"
  from Lookup_registered_pattern [OF reg h, of MethodHead c] obtain e' vs where
    at: "entry_at (root mux1) (pattern_keys pat) = Some e'" and
    look: "Lookup mux1 ?r = Inr (Some \<lparr>muxEntry = Some e', mvalues = vs\<rparr>)" by blast
  from HandleMethods_result [OF h] at obtain e0 where
    e0: "e0 = (case entry_at (root mux0) (pattern_keys pat) of
                   None \<Rightarrow> \<lparr>pattern = pat, params = pattern_names pat,
                             handlers = Map.empty, methods = Methods [MethodOptions]\<rparr>
                 | Some e \<Rightarrow> e)"
    and set: "setHandlers e0 [MethodGet] g = Inr e'"
    by auto
  from nohead e0 have "handlers e0 MethodHead = None" by (simp split: option.splits)
  with setHandlers_Inr [OF set] have hd: "handlers e' MethodHead = None"
    and gt: "handlers e' MethodGet = Some g" by simp_all
  have "ServeHTTPErr mux1 (Some p) ?r =
      Inr ([], ServeHandler g (?r\<lparr>Ctx := Some \<lparr>muxEntry = Some e', mvalues = vs\<rparr>\<rparr>),
           Some \<lparr>muxEntry = Some e', mvalues = vs\<rparr>)"
    using look hd gt by (simp add: ServeHTTPErr_def lookup_Reset MuxMatch_Handler_def Let_def)
  then show ?thesis by simp
qed

text \<open>
  C5. The claim asks that every request whose path matches a registered pattern be
  resolved in the fixed order, and that a \<open>HEAD\<close> request on a pattern with \<open>GET\<close>
  registered run the \<open>GET\<close> handler. At the failing input, with \<open>GET /users\<close>
  registered on a new mux, a request for \<open>/nope\<close> is served first, on a new pooled
  match: the lookup misses, returns \<^verbatim>\<open>nil\<close> into the variable the deferred function
  reads, and \<^verbatim>\<open>nil\<close> is what goes back to the pool. A request for \<open>/users\<close> that
  is handed this pointer panics in \<^verbatim>\<open>Reset\<close>, before any lookup, whether its method
  is \<open>HEAD\<close>, \<open>GET\<close> or \<open>OPTIONS\<close>; no handler is served and no header is written.
\<close>

theorem nil_match_pooled_after_miss:
  "case Handle NewMux MethodGet ''/users'' (Some h) of
     Inl x \<Rightarrow> False
   | Inr mux \<Rightarrow>
       (case ServeHTTPErr mux pool_New \<lparr>Method = MethodGet, URL_Path = ''/nope'', Ctx = None\<rparr> of
          Inl x \<Rightarrow> False
        | Inr (ws, res, put) \<Rightarrow>
            ws = [] \<and> res = ReturnErr ErrMuxNotFound \<and> put = None \<and>
            ServeHTTPErr mux put \<lparr>Method = MethodHead, URL_Path = ''/users'', Ctx = None\<rparr> =
              Inl PanicNilDereference \<and>
            ServeHTTPErr mux put \<lparr>Method = MethodGet, URL_Path = ''/users'', Ctx = None\<rparr> =
              Inl PanicNilDereference \<and>
            ServeHTTPErr mux put \<lparr>Method = MethodOptions, URL_Path = ''/users'', Ctx = None\<rparr> =
              Inl PanicNilDereference)"
  by (simp add: eval_simps)

text \<open>
  C4. The claim asks for a method-not-allowed outcome, distinguishable from
  not-found and carrying the entry's method set, when the path matches and the
  method has no handler. At the failing input (only \<open>GET /users\<close> registered, request
  \<open>POST /users\<close>, any pooled match that is not \<^verbatim>\<open>nil\<close>) \<open>ServeHTTPErr\<close> returns the
  same \<open>ErrMuxNotFound\<close>, with nothing written, as for the unmatched path \<open>/nope\<close>;
  the error handler is called with the request as it came in, without the match in
  its context, so the default handler answers 404 with no \<open>Allow\<close> header in both
  cases. The two calls differ only in the pointer that goes back to the pool.
\<close>

theorem method_not_allowed_reported_as_not_found:
  "case Handle NewMux MethodGet ''/users'' (Some h) of
     Inl x \<Rightarrow> False
   | Inr mux \<Rightarrow>
       ServeHTTPErr mux (Some pooled) \<lparr>Method = MethodPost, URL_Path = ''/users'', Ctx = None\<rparr> =
         Inr ([], ReturnErr ErrMuxNotFound,
              Some \<lparr>muxEntry = Some \<lparr>pattern = ''/users'', params = [],
                       handlers = [MethodGet \<mapsto> h],
                       methods = [MethodOptions, MethodGet, MethodHead]\<rparr>,
                    mvalues = []\<rparr>) \<and>
       ServeHTTPErr mux (Some pooled) \<lparr>Method = MethodPost, URL_Path = ''/nope'', Ctx = None\<rparr> =
         Inr ([], ReturnErr ErrMuxNotFound, None) \<and>
       ServeHTTP run mux (Some pooled) \<lparr>Method = MethodPost, URL_Path = ''/users'', Ctx = None\<rparr> =
         Inr ([HttpError StatusNotFound],
              Some \<lparr>muxEntry = Some \<lparr>pattern = ''/users'', params = [],
                       handlers = [MethodGet \<mapsto> h],
                       methods = [MethodOptions, MethodGet, MethodHead]\<rparr>,
                    mvalues = []\<rparr>) \<and>
       ServeHTTP run mux (Some pooled) \<lparr>Method = MethodPost, URL_Path = ''/nope'', Ctx = None\<rparr> =
         Inr ([HttpError StatusNotFound], None)"
  by (simp add: eval_simps)

subsection \<open>Lookup on concrete routes\<close>

text \<open>
  C2. The claim asks that a pattern ending in \<open>*name\<close> match one or more remaining
  segments, joined with slashes into one value, and not match when no segment
  remains. At the failing inputs, with only \<open>/files/*path\<close> registered, the lookup of
  \<open>/files/a/b\<close> finds nothing (the wildcard node has no child for \<open>b\<close>), and the lookup
  of \<open>/files/\<close> matches the pattern with the empty string as the captured value.
\<close>

theorem greedy_wildcard_not_implemented:
  "case Handle NewMux MethodGet ''/files/*path'' (Some h) of
     Inl x \<Rightarrow> False
   | Inr mux \<Rightarrow>
       Lookup mux \<lparr>Method = MethodGet, URL_Path = ''/files/a/b'', Ctx = None\<rparr> = Inr None \<and>
       Lookup mux \<lparr>Method = MethodGet, URL_Path = ''/files/'', Ctx = None\<rparr> =
         Inr (Some \<lparr>muxEntry = Some \<lparr>pattern = ''/files/*path'', params = [''path''],
                      handlers = [MethodGet \<mapsto> h],
                      methods = [MethodOptions, MethodGet, MethodHead]\<rparr>,
                    mvalues = ['''']\<rparr>)"
  by (simp add: eval_simps)

text \<open>
  C3. The claim asks that one trailing slash make no difference on either side. At
  the failing inputs: with \<open>/home\<close> registered the lookup of \<open>/home/\<close> finds nothing,
  while \<open>/home\<close> is found; with \<open>/home/\<close> registered the lookup of \<open>/home\<close> finds nothing,
  while \<open>/home/\<close> is found; and with \<open>/home\<close> and \<open>home/:page\<close> registered the lookup of
  \<open>/home/\<close> resolves to \<open>home/:page\<close>, the empty last segment filling the placeholder.
\<close>

theorem trailing_slash_significant:
  "(case Handle NewMux MethodGet ''/home'' (Some h) of
      Inl x \<Rightarrow> False
    | Inr mux \<Rightarrow>
        Lookup mux \<lparr>Method = MethodGet, URL_Path = ''/home/'', Ctx = None\<rparr> = Inr None \<and>
        map_sum id (map_option MuxMatch_Pattern)
          (Lookup mux \<lparr>Method = MethodGet, URL_Path = ''/home'', Ctx = None\<rparr>) =
          Inr (Some ''/home'')) \<and>
   (case Handle NewMux MethodGet ''/home/'' (Some h) of
      Inl x \<Rightarrow> False
    | Inr mux \<Rightarrow>
        Lookup mux \<lparr>Method = MethodGet, URL_Path = ''/home'', Ctx = None\<rparr> = Inr None \<and>
        map_sum id (map_option MuxMatch_Pattern)
          (Lookup mux \<lparr>Method = MethodGet, URL_Path = ''/home/'', Ctx = None\<rparr>) =
          Inr (Some ''/home/'')) \<and>
   (case Handle_all NewMux [(MethodGet, ''/home'', h), (MethodGet, ''home/:page'', h')] of
      Inl x \<Rightarrow> False
    | Inr mux \<Rightarrow>
        map_sum id (map_option MuxMatch_Pattern)
          (Lookup mux \<lparr>Method = MethodGet, URL_Path = ''/home/'', Ctx = None\<rparr>) =
          Inr (Some ''home/:page''))"
  by (simp add: eval_simps)

text \<open>
  C9. The claim asks that \<open>Param\<close> never index the captured values out of range. At
  the failing input, with \<open>/users/:id\<close> registered, the request path \<open>/users/*\<close> hits
  the wildcard child through its key \<open>*\<close> as an exact child, so nothing is captured:
  the match has one parameter name and no value, and \<open>Param("id")\<close> reads
  \<^verbatim>\<open>m.values[0]\<close> of an empty slice and panics.
\<close>

theorem Param_panics_on_star_segment:
  "case Handle NewMux MethodGet ''/users/:id'' (Some h) of
     Inl x \<Rightarrow> False
   | Inr mux \<Rightarrow>
       (case Lookup mux \<lparr>Method = MethodGet, URL_Path = ''/users/*'', Ctx = None\<rparr> of
          Inr (Some m) \<Rightarrow>
            MuxMatch_Params m = [''id''] \<and> mvalues m = [] \<and>
            MuxMatch_Param m ''id'' = Inl PanicIndexOutOfRange
        | _ \<Rightarrow> False)"
  by (simp add: eval_simps)

end
